theory Spec2Isabelle
  imports Complex_Main "HOL-Library.AList"
begin

section \<open>Data model\<close>

text \<open>
  A page is a string. A Python \<open>dict\<close> keeps its keys in insertion order, and the
  loops of \<open>pagerank.py\<close> run over the keys in that order, so a dict is an association
  list: \<open>d[k]\<close> is \<open>dict_get\<close> (a missing key raises \<open>KeyError\<close>), \<open>d[k] = v\<close> is
  \<open>AList.update\<close> (an existing key keeps its position, a new key goes to the end), and
  \<open>d.keys()\<close> is \<open>keys\<close>. The corpus maps a page to the set of pages it links to; the set
  is the list of its elements in iteration order, so \<open>len\<close> is \<open>length\<close> and \<open>in\<close> is
  membership in \<open>set\<close>. Floats are taken as exact rationals.
\<close>

type_synonym page = string

type_synonym 'v pydict = "(page \<times> 'v) list"

type_synonym corpus = "page list pydict"

datatype error = KeyError | IndexError | ZeroDivisionError | ValueError

definition keys :: "'v pydict \<Rightarrow> page list" where
  "keys d = map fst d"

definition dict_get :: "'v pydict \<Rightarrow> page \<Rightarrow> error + 'v" where
  "dict_get d k = (case map_of d k of None \<Rightarrow> Inl KeyError | Some v \<Rightarrow> Inr v)"

definition pydiv :: "rat \<Rightarrow> rat \<Rightarrow> error + rat" where
  "pydiv a b = (if b = 0 then Inl ZeroDivisionError else Inr (a / b))"

text \<open>
  What the specification calls a graph: a dict (no key twice), every link set without
  repetition, and every link target itself a key of the graph (closed universe).
\<close>

definition graph_ok :: "corpus \<Rightarrow> bool" where
  "graph_ok corpus \<longleftrightarrow>
     distinct (keys corpus) \<and>
     (\<forall>(p, links) \<in> set corpus. distinct links \<and> set links \<subseteq> set (keys corpus))"

section \<open>transition_model\<close>

text \<open>\<open>for key in ks: d[key] = v\<close>\<close>

fun assign_all :: "page list \<Rightarrow> rat \<Rightarrow> rat pydict \<Rightarrow> rat pydict" where
  "assign_all [] v d = d"
| "assign_all (key # ks) v d = assign_all ks v (AList.update key v d)"

definition transition_model :: "corpus \<Rightarrow> page \<Rightarrow> rat \<Rightarrow> error + rat pydict" where
  "transition_model corpus page damping_factor =
     (case dict_get corpus page of Inl e \<Rightarrow> Inl e | Inr links \<Rightarrow>
        if length links = 0 then
          (case pydiv 1 (of_nat (length (keys corpus))) of Inl e \<Rightarrow> Inl e | Inr prob \<Rightarrow>
             Inr (assign_all (keys corpus) prob []))
        else
          (case pydiv damping_factor (of_nat (length links)) of Inl e \<Rightarrow> Inl e | Inr prob1 \<Rightarrow>
          (case pydiv (1 - damping_factor) (of_nat (length (keys corpus))) of Inl e \<Rightarrow> Inl e
           | Inr prob2 \<Rightarrow>
             let prob = prob1 + prob2
             in Inr (assign_all links prob (assign_all (keys corpus) prob2 [])))))"

section \<open>sample_pagerank\<close>

text \<open>
  The two library calls, after CPython's \<open>random\<close> module. \<open>random.choice(seq)\<close> raises
  \<open>IndexError\<close> on an empty sequence and otherwise returns \<open>seq[r]\<close> for the index \<open>r\<close>
  drawn below \<open>len(seq)\<close>. \<open>random.choices(population, weights, k=1)[0]\<close> accumulates the
  weights, raises \<open>ValueError\<close> when their total is not positive, and returns the element
  at the position found by \<open>bisect\<close> for \<open>random() * total\<close> between \<open>0\<close> and
  \<open>len(population) - 1\<close>. The outcomes of the random source are parameters: \<open>r\<close> for the
  index drawn by \<open>choice\<close>, \<open>u\<close> for the value of \<open>random()\<close>.
\<close>

definition random_choice :: "nat \<Rightarrow> 'a list \<Rightarrow> error + 'a" where
  "random_choice r seq = (if length seq = 0 then Inl IndexError else Inr (seq ! r))"

fun accumulate :: "rat \<Rightarrow> rat list \<Rightarrow> rat list" where
  "accumulate acc [] = []"
| "accumulate acc (w # ws) = (acc + w) # accumulate (acc + w) ws"

function bisect :: "rat list \<Rightarrow> rat \<Rightarrow> nat \<Rightarrow> nat \<Rightarrow> nat" where
  "bisect a x lo hi =
     (if lo < hi then
        let mid = (lo + hi) div 2
        in if x < a ! mid then bisect a x lo mid else bisect a x (mid + 1) hi
      else lo)"
  by pat_completeness auto
termination
  by (relation "measure (\<lambda>(a, x, lo, hi). hi - lo)") auto

definition random_choices :: "rat \<Rightarrow> page list \<Rightarrow> rat list \<Rightarrow> error + page" where
  "random_choices u population weights =
     (let n = length population;
          cum_weights = accumulate 0 weights
      in if length cum_weights \<noteq> n then Inl ValueError
         else if cum_weights = [] then Inl IndexError
         else
           let total = last cum_weights
           in if total \<le> 0 then Inl ValueError
              else Inr (population ! bisect cum_weights (u * total) 0 (n - 1)))"

text \<open>
  The body of the main loop after the draw: one more visit for \<open>page_next\<close>.
\<close>

definition record_visit :: "int pydict \<Rightarrow> page \<Rightarrow> error + int pydict" where
  "record_visit pr_dict page_next =
     (if page_next \<in> set (keys pr_dict) then
        (case dict_get pr_dict page_next of Inl e \<Rightarrow> Inl e
         | Inr c \<Rightarrow> Inr (AList.update page_next (c + 1) pr_dict))
      else Inr (AList.update page_next 1 pr_dict))"

text \<open>
  \<open>for i in range(1, n)\<close>: the list of the remaining values of \<open>i\<close>, the current page
  and the visit counts; \<open>u i\<close> is the value of \<open>random()\<close> in round \<open>i\<close>.
\<close>

fun sample_loop ::
  "corpus \<Rightarrow> rat \<Rightarrow> (nat \<Rightarrow> rat) \<Rightarrow> nat list \<Rightarrow> page \<Rightarrow> int pydict \<Rightarrow> error + int pydict" where
  "sample_loop corpus damping_factor u [] sample pr_dict = Inr pr_dict"
| "sample_loop corpus damping_factor u (i # rest) sample pr_dict =
     (case transition_model corpus sample damping_factor of Inl e \<Rightarrow> Inl e
      | Inr new_sample \<Rightarrow>
     (case random_choices (u i) (keys new_sample) (map snd new_sample) of Inl e \<Rightarrow> Inl e
      | Inr page_next \<Rightarrow>
     (case record_visit pr_dict page_next of Inl e \<Rightarrow> Inl e
      | Inr pr_dict' \<Rightarrow> sample_loop corpus damping_factor u rest page_next pr_dict')))"

text \<open>
  \<open>for key in pr_dict: pr_dict[key] = pr_dict[key] / n\<close>: every entry, in order, has its
  count replaced by the quotient; \<open>n = 0\<close> raises at the first entry.
\<close>

fun divide_counts :: "int pydict \<Rightarrow> int \<Rightarrow> error + rat pydict" where
  "divide_counts [] n = Inr []"
| "divide_counts ((key, c) # rest) n =
     (case pydiv (of_int c) (of_int n) of Inl e \<Rightarrow> Inl e
      | Inr q \<Rightarrow>
     (case divide_counts rest n of Inl e \<Rightarrow> Inl e
      | Inr rest' \<Rightarrow> Inr ((key, q) # rest')))"

definition sample_pagerank ::
  "corpus \<Rightarrow> rat \<Rightarrow> int \<Rightarrow> nat \<Rightarrow> (nat \<Rightarrow> rat) \<Rightarrow> error + rat pydict" where
  "sample_pagerank corpus damping_factor n r u =
     (case random_choice r (keys corpus) of Inl e \<Rightarrow> Inl e
      | Inr sample \<Rightarrow>
     (case sample_loop corpus damping_factor u [1..<nat n] sample [(sample, 1)] of
        Inl e \<Rightarrow> Inl e
      | Inr pr_dict \<Rightarrow> divide_counts pr_dict n))"

section \<open>iterate_pagerank\<close>

text \<open>
  The inner loop \<open>for page in corpus\<close> of a sweep: the sum, over the pages whose link
  set holds \<open>key\<close>, of their current rank divided by their number of links.
\<close>

fun inbound_loop :: "corpus \<Rightarrow> rat pydict \<Rightarrow> page \<Rightarrow> page list \<Rightarrow> rat \<Rightarrow> error + rat" where
  "inbound_loop corpus iterate_dict key [] total_in = Inr total_in"
| "inbound_loop corpus iterate_dict key (page # pages) total_in =
     (case dict_get corpus page of Inl e \<Rightarrow> Inl e
      | Inr links \<Rightarrow>
        if key \<in> set links then
          (case dict_get iterate_dict page of Inl e \<Rightarrow> Inl e
           | Inr rank \<Rightarrow>
          (case pydiv rank (of_nat (length links)) of Inl e \<Rightarrow> Inl e
           | Inr q \<Rightarrow> inbound_loop corpus iterate_dict key pages (total_in + q)))
        else inbound_loop corpus iterate_dict key pages total_in)"

text \<open>
  The outer loop \<open>for key in corpus\<close> of a sweep: the new rank of \<open>key\<close> is computed
  from \<open>iterate_dict\<close> as it is at that moment and stored at once; \<open>count\<close> counts the
  pages that moved by less than \<open>0.0001\<close>.
\<close>

fun sweep_loop ::
  "corpus \<Rightarrow> rat \<Rightarrow> page list \<Rightarrow> rat pydict \<Rightarrow> nat \<Rightarrow> error + (rat pydict \<times> nat)" where
  "sweep_loop corpus damping_factor [] iterate_dict count = Inr (iterate_dict, count)"
| "sweep_loop corpus damping_factor (key # ks) iterate_dict count =
     (case inbound_loop corpus iterate_dict key (keys corpus) 0 of Inl e \<Rightarrow> Inl e
      | Inr total_in \<Rightarrow>
     (case pydiv (1 - damping_factor) (of_nat (length (keys corpus))) of Inl e \<Rightarrow> Inl e
      | Inr base \<Rightarrow>
        let new = base + damping_factor * total_in
        in (case dict_get iterate_dict key of Inl e \<Rightarrow> Inl e
            | Inr old \<Rightarrow>
              sweep_loop corpus damping_factor ks (AList.update key new iterate_dict)
                (if \<bar>old - new\<bar> < 1 / 10000 then count + 1 else count))))"

definition sweep :: "corpus \<Rightarrow> rat \<Rightarrow> rat pydict \<Rightarrow> error + (rat pydict \<times> nat)" where
  "sweep corpus damping_factor iterate_dict =
     sweep_loop corpus damping_factor (keys corpus) iterate_dict 0"

text \<open>
  \<open>while True\<close>: sweeps until one of them counts every page. The loop has no bound, so
  its result is an option: \<open>None\<close> stands for a loop that never leaves.
\<close>

partial_function (option) iterate_loop ::
  "corpus \<Rightarrow> rat \<Rightarrow> rat pydict \<Rightarrow> (error + rat pydict) option" where
  "iterate_loop corpus damping_factor iterate_dict =
     (case sweep corpus damping_factor iterate_dict of Inl e \<Rightarrow> Some (Inl e)
      | Inr (iterate_dict', count) \<Rightarrow>
          if count = length (keys corpus) then Some (Inr iterate_dict')
          else iterate_loop corpus damping_factor iterate_dict')"

declare iterate_loop.simps [code]

text \<open>\<open>for key in corpus: iterate_dict[key] = 1 / len(corpus.keys())\<close>\<close>

fun first_distribution :: "corpus \<Rightarrow> page list \<Rightarrow> rat pydict \<Rightarrow> error + rat pydict" where
  "first_distribution corpus [] iterate_dict = Inr iterate_dict"
| "first_distribution corpus (key # ks) iterate_dict =
     (case pydiv 1 (of_nat (length (keys corpus))) of Inl e \<Rightarrow> Inl e
      | Inr v \<Rightarrow> first_distribution corpus ks (AList.update key v iterate_dict))"

text \<open>\<open>for key in iterate_dict: total += iterate_dict[key]\<close>\<close>

fun total_loop :: "rat pydict \<Rightarrow> page list \<Rightarrow> rat \<Rightarrow> error + rat" where
  "total_loop iterate_dict [] total' = Inr total'"
| "total_loop iterate_dict (key # ks) total' =
     (case dict_get iterate_dict key of Inl e \<Rightarrow> Inl e
      | Inr v \<Rightarrow> total_loop iterate_dict ks (total' + v))"

text \<open>\<open>for key in iterate_dict: iterate_dict[key] = iterate_dict[key] / total\<close>\<close>

fun normalize_loop :: "page list \<Rightarrow> rat \<Rightarrow> rat pydict \<Rightarrow> error + rat pydict" where
  "normalize_loop [] total' iterate_dict = Inr iterate_dict"
| "normalize_loop (key # ks) total' iterate_dict =
     (case dict_get iterate_dict key of Inl e \<Rightarrow> Inl e
      | Inr v \<Rightarrow>
     (case pydiv v total' of Inl e \<Rightarrow> Inl e
      | Inr q \<Rightarrow> normalize_loop ks total' (AList.update key q iterate_dict)))"

definition normalization :: "rat pydict \<Rightarrow> error + rat pydict" where
  "normalization iterate_dict =
     (case total_loop iterate_dict (keys iterate_dict) 0 of Inl e \<Rightarrow> Inl e
      | Inr total' \<Rightarrow> normalize_loop (keys iterate_dict) total' iterate_dict)"

definition iterate_pagerank :: "corpus \<Rightarrow> rat \<Rightarrow> (error + rat pydict) option" where
  "iterate_pagerank corpus damping_factor =
     (case first_distribution corpus (keys corpus) [] of Inl e \<Rightarrow> Some (Inl e)
      | Inr iterate_dict \<Rightarrow>
     (case iterate_loop corpus damping_factor iterate_dict of None \<Rightarrow> None
      | Some (Inl e) \<Rightarrow> Some (Inl e)
      | Some (Inr ranks) \<Rightarrow> Some (normalization ranks)))"

section \<open>Reference notions of the specification\<close>

text \<open>
  The specification's update rule, in its own words: \<open>new_rank(p) = (1 - damping) / |pages|
  + damping * sum over every page q that links to p of rank(q) / |outlinks(q)|\<close>, for a
  rank map \<open>rank\<close> given as a function. \<open>reference_update\<close> is the simultaneous sweep:
  every page's new rank from the same, previous rank map.
\<close>

definition outlinks :: "corpus \<Rightarrow> page \<Rightarrow> page list" where
  "outlinks corpus q = (case map_of corpus q of None \<Rightarrow> [] | Some links \<Rightarrow> links)"

definition rank_of :: "rat pydict \<Rightarrow> page \<Rightarrow> rat" where
  "rank_of ranks q = (case map_of ranks q of None \<Rightarrow> 0 | Some v \<Rightarrow> v)"

definition new_rank :: "corpus \<Rightarrow> rat \<Rightarrow> (page \<Rightarrow> rat) \<Rightarrow> page \<Rightarrow> rat" where
  "new_rank corpus damping rank p =
     (1 - damping) / of_nat (length (keys corpus)) +
     damping * (\<Sum>q\<leftarrow>keys corpus.
                  if p \<in> set (outlinks corpus q)
                  then rank q / of_nat (length (outlinks corpus q)) else 0)"

definition reference_update :: "corpus \<Rightarrow> rat \<Rightarrow> rat pydict \<Rightarrow> rat pydict" where
  "reference_update corpus damping ranks =
     map (\<lambda>p. (p, new_rank corpus damping (rank_of ranks) p)) (keys corpus)"

text \<open>
  The pages visited by the walk of \<open>sample_pagerank\<close>, in order: the start page and the
  page drawn in each round of the main loop.
\<close>

fun walk_loop :: "corpus \<Rightarrow> rat \<Rightarrow> (nat \<Rightarrow> rat) \<Rightarrow> nat list \<Rightarrow> page \<Rightarrow> error + page list" where
  "walk_loop corpus damping_factor u [] sample = Inr []"
| "walk_loop corpus damping_factor u (i # rest) sample =
     (case transition_model corpus sample damping_factor of Inl e \<Rightarrow> Inl e
      | Inr new_sample \<Rightarrow>
     (case random_choices (u i) (keys new_sample) (map snd new_sample) of Inl e \<Rightarrow> Inl e
      | Inr page_next \<Rightarrow>
     (case walk_loop corpus damping_factor u rest page_next of Inl e \<Rightarrow> Inl e
      | Inr visited \<Rightarrow> Inr (page_next # visited))))"

definition walk :: "corpus \<Rightarrow> rat \<Rightarrow> int \<Rightarrow> nat \<Rightarrow> (nat \<Rightarrow> rat) \<Rightarrow> error + page list" where
  "walk corpus damping_factor n r u =
     (case random_choice r (keys corpus) of Inl e \<Rightarrow> Inl e
      | Inr sample \<Rightarrow>
     (case walk_loop corpus damping_factor u [1..<nat n] sample of Inl e \<Rightarrow> Inl e
      | Inr visited \<Rightarrow> Inr (sample # visited)))"

text \<open>
  The invariant of the rank map across the sweeps of \<open>iterate_pagerank\<close>: the keys of
  the graph, in the graph's order, and every rank positive.
\<close>

definition ranks_ok :: "corpus \<Rightarrow> rat pydict \<Rightarrow> bool" where
  "ranks_ok corpus ranks \<longleftrightarrow> keys ranks = keys corpus \<and> (\<forall>v \<in> snd ` set ranks. 0 < v)"

section \<open>Dicts as association lists\<close>

lemma update_fresh: "k \<notin> set (keys d) \<Longrightarrow> AList.update k v d = d @ [(k, v)]"
  by (induction d) (auto simp: keys_def)

lemma assign_all_fresh:
  "distinct ks \<Longrightarrow> set ks \<inter> set (keys d) = {} \<Longrightarrow>
   assign_all ks v d = d @ map (\<lambda>k. (k, v)) ks"
proof (induction ks arbitrary: d)
  case Nil
  then show ?case by simp
next
  case (Cons k ks)
  have fresh: "k \<notin> set (keys d)" using Cons.prems by auto
  have "set ks \<inter> set (keys (d @ [(k, v)])) = {}"
    using Cons.prems by (auto simp: keys_def)
  with Cons show ?case by (simp add: update_fresh [OF fresh])
qed

lemma update_tabulated:
  "distinct ks \<Longrightarrow> l \<in> set ks \<Longrightarrow>
   AList.update l v (map (\<lambda>k. (k, f k)) ks) = map (\<lambda>k. (k, if k = l then v else f k)) ks"
  by (induction ks) auto

lemma assign_all_tabulated:
  "distinct ks \<Longrightarrow> set ls \<subseteq> set ks \<Longrightarrow>
   assign_all ls v (map (\<lambda>k. (k, f k)) ks) =
   map (\<lambda>k. (k, if k \<in> set ls then v else f k)) ks"
proof (induction ls arbitrary: f)
  case Nil
  then show ?case by simp
next
  case (Cons l ls)
  then show ?case by (simp add: update_tabulated) 
qed

lemma sum_list_marked:
  fixes a b :: rat
  assumes "distinct ks" "distinct ls" "set ls \<subseteq> set ks"
  shows "sum_list (map (\<lambda>k. if k \<in> set ls then a + b else b) ks) =
         of_nat (length ls) * a + of_nat (length ks) * b"
proof -
  have "sum_list (map (\<lambda>k. if k \<in> set ls then a + b else b) ks) =
        (\<Sum>k\<in>set ks. if k \<in> set ls then a + b else b)"
    using assms(1) by (simp add: sum_list_distinct_conv_sum_set)
  also have "\<dots> = (\<Sum>k\<in>set ks. (if k \<in> set ls then a else 0) + b)"
    by (rule sum.cong) auto
  also have "\<dots> = (\<Sum>k\<in>set ks. if k \<in> set ls then a else 0) + of_nat (card (set ks)) * b"
    by (simp add: sum.distrib)
  also have "(\<Sum>k\<in>set ks. if k \<in> set ls then a else 0) = (\<Sum>k\<in>set ks \<inter> set ls. a)"
    by (rule sum.inter_restrict [symmetric]) simp
  also have "set ks \<inter> set ls = set ls" using assms(3) by auto
  finally show ?thesis using assms(1,2) by (simp add: distinct_card)
qed

lemma dict_get_Inr: "dict_get d k = Inr v \<longleftrightarrow> map_of d k = Some v"
  by (simp add: dict_get_def split: option.splits)

lemma dict_get_Inl: "dict_get d k = Inl e \<longleftrightarrow> e = KeyError \<and> k \<notin> set (keys d)"
proof -
  have "map_of d k = None \<longleftrightarrow> k \<notin> set (keys d)"
    by (simp add: map_of_eq_None_iff keys_def)
  then show ?thesis
    by (cases "map_of d k") (auto simp: dict_get_def)
qed

lemma dict_get_keys: "dict_get d k = Inr v \<Longrightarrow> k \<in> set (keys d)"
  by (auto simp: dict_get_Inr keys_def dest: map_of_SomeD intro: rev_image_eqI)

lemma dict_get_entry: "dict_get d k = Inr v \<Longrightarrow> (k, v) \<in> set d"
  by (simp add: dict_get_Inr map_of_SomeD)

lemma dict_get_tabulated:
  "k \<in> set ks \<Longrightarrow> dict_get (map (\<lambda>k. (k, f k)) ks) k = Inr (f k)"
  by (induction ks) (auto simp: dict_get_def)

lemma keys_tabulated: "keys (map (\<lambda>k. (k, f k)) ks) = ks"
  by (simp add: keys_def comp_def)

lemma transition_model_eq:
  assumes "distinct (keys corpus)" and "dict_get corpus page = Inr links"
    and "set links \<subseteq> set (keys corpus)"
  shows "transition_model corpus page d =
         Inr (map (\<lambda>k. (k, if links = [] then 1 / of_nat (length (keys corpus))
                            else if k \<in> set links
                              then d / of_nat (length links) + (1 - d) / of_nat (length (keys corpus))
                              else (1 - d) / of_nat (length (keys corpus))))
                  (keys corpus))"
proof -
  have ne: "keys corpus \<noteq> []"
    using dict_get_keys [OF assms(2)] by auto
  have init: "assign_all (keys corpus) v [] = map (\<lambda>k. (k, v)) (keys corpus)" for v
    using assign_all_fresh [of "keys corpus" "[]" v] assms(1) by (simp add: keys_def)
  show ?thesis
  proof (cases "links = []")
    case True
    with ne show ?thesis
      by (simp add: transition_model_def assms(2) pydiv_def init)
  next
    case False
    with ne show ?thesis
      by (simp add: transition_model_def assms(2) pydiv_def init
          assign_all_tabulated [OF assms(1) assms(3)])
  qed
qed

lemma graph_ok_links:
  "graph_ok corpus \<Longrightarrow> dict_get corpus page = Inr links \<Longrightarrow>
   distinct links \<and> set links \<subseteq> set (keys corpus)"
  by (auto simp: graph_ok_def dest!: dict_get_entry)

lemma dict_get_total: "k \<in> set (keys d) \<Longrightarrow> \<exists>v. dict_get d k = Inr v"
  by (cases "dict_get d k") (auto simp: dict_get_Inl)

lemma transition_model_sum:
  assumes "graph_ok corpus" and "dict_get corpus page = Inr links"
    and "transition_model corpus page d = Inr pd"
  shows "sum_list (map snd pd) = 1"
proof -
  let ?N = "of_nat (length (keys corpus)) :: rat"
  let ?L = "of_nat (length links) :: rat"
  have dk: "distinct (keys corpus)" using assms(1) by (simp add: graph_ok_def)
  have ls: "distinct links" "set links \<subseteq> set (keys corpus)"
    using graph_ok_links [OF assms(1,2)] by auto
  have ne: "?N \<noteq> 0" using dict_get_keys [OF assms(2)] by auto
  note eq = transition_model_eq [OF dk assms(2) ls(2), of d]
  show ?thesis
  proof (cases "links = []")
    case True
    with eq assms(3) have "map snd pd = map (\<lambda>k. 1 / ?N) (keys corpus)"
      by (auto simp: comp_def)
    then show ?thesis using ne by (simp add: sum_list_triv)
  next
    case False
    then have L: "?L \<noteq> 0" by simp
    from False eq assms(3)
    have "map snd pd =
          map (\<lambda>k. if k \<in> set links then d / ?L + (1 - d) / ?N else (1 - d) / ?N) (keys corpus)"
      by (auto simp: comp_def)
    then have "sum_list (map snd pd) = ?L * (d / ?L) + ?N * ((1 - d) / ?N)"
      using sum_list_marked [OF dk ls] by simp
    then show ?thesis using ne L by simp
  qed
qed

section \<open>Properties of transition_model\<close>

text \<open>
  C4 as stated gives every page the base probability \<open>(1 - damping) / |pages|\<close>. At the
  dangling page \<open>B\<close> of the graph \<open>A \<rightarrow> B\<close> with damping \<open>1/2\<close> the base is \<open>1/4\<close>, and
  both pages get \<open>1/2\<close>.
\<close>

theorem transition_model_base_counterexample:
  "graph_ok [(''A'', [''B'']), (''B'', [])] \<and>
   transition_model [(''A'', [''B'']), (''B'', [])] ''B'' (1 / 2) =
     Inr [(''A'', 1 / 2), (''B'', 1 / 2)] \<and>
   (1 - 1 / 2) / of_nat (length (keys [(''A'', [''B'']), (''B'', [])])) = (1 / 4 :: rat)"
  by (simp add: graph_ok_def keys_def dict_get_def transition_model_def pydiv_def)

text \<open>
  C4 (as amended). For every graph, every page that is a key of it and every damping
  factor in \<open>[0,1)\<close>, \<open>transition_model\<close> returns a map whose keys are exactly the
  graph's pages and whose values sum to exactly \<open>1\<close>. When the page has at least one
  outgoing link, each page gets \<open>(1 - damping) / |pages|\<close> and each link target of the
  page gets \<open>(1 - damping) / |pages| + damping / |outlinks(page)|\<close> instead; when it has
  none, each page gets \<open>1 / |pages|\<close>.
\<close>

theorem transition_model_distribution:
  assumes "graph_ok corpus" and "page \<in> set (keys corpus)"
    and "0 \<le> damping_factor" and "damping_factor < 1"
  shows "\<exists>pd links. transition_model corpus page damping_factor = Inr pd \<and>
           dict_get corpus page = Inr links \<and>
           keys pd = keys corpus \<and>
           sum_list (map snd pd) = 1 \<and>
           (links \<noteq> [] \<longrightarrow>
              (\<forall>p \<in> set (keys corpus).
                 dict_get pd p =
                   Inr (if p \<in> set links
                        then (1 - damping_factor) / of_nat (length (keys corpus)) +
                             damping_factor / of_nat (length links)
                        else (1 - damping_factor) / of_nat (length (keys corpus))))) \<and>
           (links = [] \<longrightarrow>
              (\<forall>p \<in> set (keys corpus). dict_get pd p = Inr (1 / of_nat (length (keys corpus)))))"
proof -
  obtain links where links: "dict_get corpus page = Inr links"
    using dict_get_total [OF assms(2)] by blast
  have dk: "distinct (keys corpus)" using assms(1) by (simp add: graph_ok_def)
  have sub: "set links \<subseteq> set (keys corpus)"
    using graph_ok_links [OF assms(1) links] by simp
  note eq = transition_model_eq [OF dk links sub, of damping_factor]
  obtain pd where pd: "transition_model corpus page damping_factor = Inr pd"
    using eq by simp
  have "keys pd = keys corpus"
    using eq pd by (auto simp: keys_tabulated)
  moreover have "sum_list (map snd pd) = 1"
    by (rule transition_model_sum [OF assms(1) links pd])
  moreover have "links \<noteq> [] \<Longrightarrow> p \<in> set (keys corpus) \<Longrightarrow>
      dict_get pd p =
        Inr (if p \<in> set links
             then (1 - damping_factor) / of_nat (length (keys corpus)) +
                  damping_factor / of_nat (length links)
             else (1 - damping_factor) / of_nat (length (keys corpus)))" for p
    using eq pd by (auto simp: dict_get_tabulated)
  moreover have "links = [] \<Longrightarrow> p \<in> set (keys corpus) \<Longrightarrow>
      dict_get pd p = Inr (1 / of_nat (length (keys corpus)))" for p
    using eq pd by (auto simp: dict_get_tabulated)
  ultimately show ?thesis using pd links by blast
qed

text \<open>
  The theorem at a three-page graph, page \<open>C\<close>, damping \<open>1/2\<close>.
\<close>

theorem transition_model_distribution_witness:
  "graph_ok [(''A'', [''B'']), (''B'', [''A'']), (''C'', [''A''])] \<and>
   ''C'' \<in> set (keys [(''A'', [''B'']), (''B'', [''A'']), (''C'', [''A''])]) \<and>
   (0::rat) \<le> 1 / 2 \<and> (1 / 2 :: rat) < 1 \<and>
   (\<exists>pd. transition_model [(''A'', [''B'']), (''B'', [''A'']), (''C'', [''A''])] ''C'' (1 / 2)
           = Inr pd \<and>
         keys pd = [''A'', ''B'', ''C''] \<and> sum_list (map snd pd) = 1 \<and>
         dict_get pd ''A'' = Inr (2 / 3) \<and> dict_get pd ''B'' = Inr (1 / 6))"
  using transition_model_distribution
    [of "[(''A'', [''B'']), (''B'', [''A'']), (''C'', [''A''])]" "''C''" "1 / 2"]
  by (auto simp: graph_ok_def keys_def dict_get_def)

text \<open>
  C5. For every graph and every page of it whose link set is empty, \<open>transition_model\<close>
  returns the uniform distribution: every page of the graph, in the graph's order, with
  exactly \<open>1 / |pages|\<close>, whatever the damping factor.
\<close>

theorem transition_model_dangling:
  assumes "graph_ok corpus" and "dict_get corpus page = Inr []"
  shows "transition_model corpus page damping_factor =
           Inr (map (\<lambda>p. (p, 1 / of_nat (length (keys corpus)))) (keys corpus))"
proof -
  have "distinct (keys corpus)" using assms(1) by (simp add: graph_ok_def)
  from transition_model_eq [OF this assms(2), of damping_factor]
  show ?thesis by simp
qed

text \<open>
  The theorem at the dangling page \<open>B\<close> of the graph \<open>A \<rightarrow> B\<close>.
\<close>

theorem transition_model_dangling_witness:
  "graph_ok [(''A'', [''B'']), (''B'', [])] \<and>
   dict_get [(''A'', [''B'']), (''B'', [])] ''B'' = Inr [] \<and>
   transition_model [(''A'', [''B'']), (''B'', [])] ''B'' (85 / 100) =
     Inr [(''A'', 1 / 2), (''B'', 1 / 2)]"
  using transition_model_dangling [of "[(''A'', [''B'']), (''B'', [])]" "''B''" "85 / 100"]
  by (simp add: graph_ok_def keys_def dict_get_def)

section \<open>The random draws\<close>

text \<open>
  \<open>bisect\<close> stays between its bounds, so \<open>random_choices\<close> returns a member of the
  population whenever the weights have a positive total, whatever value \<open>random()\<close>
  took. On a graph the weights of \<open>transition_model\<close> total \<open>1\<close>, so every round of the
  main loop draws a page of the graph.
\<close>

lemma length_accumulate: "length (accumulate acc ws) = length ws"
  by (induction ws arbitrary: acc) auto

lemma last_accumulate_Cons: "last (acc # accumulate acc ws) = acc + sum_list ws"
proof (induction ws arbitrary: acc)
  case Nil
  then show ?case by simp
next
  case (Cons w ws)
  have "last (acc # accumulate acc (w # ws)) = last ((acc + w) # accumulate (acc + w) ws)"
    by simp
  also have "\<dots> = acc + w + sum_list ws" by (rule Cons.IH)
  finally show ?case by (simp add: add.assoc)
qed

lemma last_accumulate: "ws \<noteq> [] \<Longrightarrow> last (accumulate acc ws) = acc + sum_list ws"
proof (cases ws)
  case Nil
  moreover assume "ws \<noteq> []"
  ultimately show ?thesis by simp
next
  case (Cons w ws')
  then show ?thesis using last_accumulate_Cons [of "acc + w" ws'] by (simp add: add.assoc)
qed

lemma bisect_bounds: "lo \<le> hi \<Longrightarrow> lo \<le> bisect a x lo hi \<and> bisect a x lo hi \<le> hi"
proof (induction a x lo hi rule: bisect.induct)
  case (1 a x lo hi)
  show ?case
  proof (cases "lo < hi")
    case False
    with "1.prems" show ?thesis by simp
  next
    case True
    define mid where "mid = (lo + hi) div 2"
    have m: "lo \<le> mid" "mid < hi" using True by (auto simp: mid_def)
    show ?thesis
    proof (cases "x < a ! mid")
      case True
      from "1.IH"(1) [OF \<open>lo < hi\<close> mid_def True] m
      have "lo \<le> bisect a x lo mid \<and> bisect a x lo mid \<le> mid" by simp
      moreover have "bisect a x lo hi = bisect a x lo mid"
        using \<open>lo < hi\<close> True by (subst bisect.simps) (simp add: mid_def Let_def)
      ultimately show ?thesis using m by simp
    next
      case False
      from "1.IH"(2) [OF \<open>lo < hi\<close> mid_def False] m
      have "mid + 1 \<le> bisect a x (mid + 1) hi \<and> bisect a x (mid + 1) hi \<le> hi" by simp
      moreover have "bisect a x lo hi = bisect a x (mid + 1) hi"
        using \<open>lo < hi\<close> False by (subst bisect.simps) (simp add: mid_def Let_def)
      ultimately show ?thesis using m by simp
    qed
  qed
qed

lemma random_choices_member:
  assumes "population \<noteq> []" and "length weights = length population"
    and "0 < sum_list weights"
  shows "\<exists>p \<in> set population. random_choices u population weights = Inr p"
proof -
  let ?cum = "accumulate 0 weights"
  let ?i = "bisect ?cum (u * last ?cum) 0 (length population - 1)"
  have w: "weights \<noteq> []" using assms(1,2) by auto
  have len: "length ?cum = length population" by (simp add: length_accumulate assms(2))
  have ne: "?cum \<noteq> []" using len assms(1) by auto
  have tot: "last ?cum = sum_list weights" using last_accumulate [OF w, of 0] by simp
  have "?i \<le> length population - 1" using bisect_bounds [of 0 "length population - 1"] by simp
  then have "?i < length population" using assms(1) by (cases population) auto
  then have "population ! ?i \<in> set population" by simp
  moreover have "random_choices u population weights = Inr (population ! ?i)"
    using len ne tot assms(3) by (simp add: random_choices_def Let_def)
  ultimately show ?thesis by blast
qed

lemma draw_next:
  assumes "graph_ok corpus" and "sample \<in> set (keys corpus)"
  shows "\<exists>new_sample page_next.
           transition_model corpus sample d = Inr new_sample \<and>
           random_choices x (keys new_sample) (map snd new_sample) = Inr page_next \<and>
           page_next \<in> set (keys corpus)"
proof -
  obtain links where links: "dict_get corpus sample = Inr links"
    using dict_get_total [OF assms(2)] by blast
  have dk: "distinct (keys corpus)" using assms(1) by (simp add: graph_ok_def)
  have sub: "set links \<subseteq> set (keys corpus)"
    using graph_ok_links [OF assms(1) links] by simp
  note eq = transition_model_eq [OF dk links sub, of d]
  then obtain new_sample where ns: "transition_model corpus sample d = Inr new_sample"
    by simp
  have k: "keys new_sample = keys corpus" using eq ns by (auto simp: keys_tabulated)
  have s: "sum_list (map snd new_sample) = 1"
    by (rule transition_model_sum [OF assms(1) links ns])
  have "keys new_sample \<noteq> []" using k assms(2) by auto
  moreover have "length (map snd new_sample) = length (keys new_sample)"
    by (simp add: keys_def)
  ultimately obtain p where "p \<in> set (keys new_sample)"
    "random_choices x (keys new_sample) (map snd new_sample) = Inr p"
    using random_choices_member [of "keys new_sample" "map snd new_sample" x] s by auto
  with ns k show ?thesis by auto
qed

section \<open>The random walk\<close>

text \<open>
  The loop invariant of \<open>sample_pagerank\<close>: the count map has each key once, its keys
  are the pages visited so far, every count is positive, and the counts total the number
  of visits.
\<close>

lemma keys_update:
  "keys (AList.update k v d) = (if k \<in> set (keys d) then keys d else keys d @ [k])"
  by (simp add: keys_def update_keys)

lemma set_update_subset: "set (AList.update k v d) \<subseteq> insert (k, v) (set d)"
  by (induction d) auto

lemma sum_values_update:
  fixes d :: "(page \<times> 'a::ab_group_add) list"
  shows "map_of d k = Some c \<Longrightarrow>
         sum_list (map snd (AList.update k v d)) = sum_list (map snd d) - c + v"
  by (induction d) (auto simp: algebra_simps)

lemma record_visit_result:
  assumes "distinct (keys pr_dict)" and "\<forall>c \<in> snd ` set pr_dict. 0 < c"
  shows "\<exists>pr_dict'. record_visit pr_dict page_next = Inr pr_dict' \<and>
           distinct (keys pr_dict') \<and>
           set (keys pr_dict') = insert page_next (set (keys pr_dict)) \<and>
           (\<forall>c \<in> snd ` set pr_dict'. 0 < c) \<and>
           sum_list (map snd pr_dict') = sum_list (map snd pr_dict) + 1"
proof (cases "page_next \<in> set (keys pr_dict)")
  case True
  then obtain c where c: "dict_get pr_dict page_next = Inr c"
    using dict_get_total by blast
  let ?d = "AList.update page_next (c + 1) pr_dict"
  have r: "record_visit pr_dict page_next = Inr ?d"
    using True c by (simp add: record_visit_def)
  have k: "keys ?d = keys pr_dict" using True by (simp add: keys_update)
  have "0 < c" using assms(2) dict_get_entry [OF c] by force
  then have pos: "\<forall>c' \<in> snd ` set ?d. 0 < c'"
    using assms(2) set_update_subset [of page_next "c + 1" pr_dict] by fastforce
  have "sum_list (map snd ?d) = sum_list (map snd pr_dict) + 1"
    using sum_values_update [of pr_dict page_next c "c + 1"] c by (simp add: dict_get_Inr)
  with r k pos assms(1) True show ?thesis by auto
next
  case False
  let ?d = "pr_dict @ [(page_next, 1)]"
  have r: "record_visit pr_dict page_next = Inr ?d"
    using False by (simp add: record_visit_def update_fresh)
  have "keys ?d = keys pr_dict @ [page_next]" by (simp add: keys_def)
  with r False assms show ?thesis by auto
qed

lemma sample_loop_walk:
  assumes "graph_ok corpus"
  shows "sample \<in> set (keys corpus) \<Longrightarrow> distinct (keys pr_dict) \<Longrightarrow>
         \<forall>c \<in> snd ` set pr_dict. 0 < c \<Longrightarrow>
         \<exists>counts visited.
           sample_loop corpus d u rounds sample pr_dict = Inr counts \<and>
           walk_loop corpus d u rounds sample = Inr visited \<and>
           set visited \<subseteq> set (keys corpus) \<and>
           distinct (keys counts) \<and>
           set (keys counts) = set (keys pr_dict) \<union> set visited \<and>
           (\<forall>c \<in> snd ` set counts. 0 < c) \<and>
           sum_list (map snd counts) = sum_list (map snd pr_dict) + int (length rounds)"
proof (induction rounds arbitrary: sample pr_dict)
  case Nil
  then show ?case by simp
next
  case (Cons i rounds)
  obtain new_sample page_next where
    step: "transition_model corpus sample d = Inr new_sample"
      "random_choices (u i) (keys new_sample) (map snd new_sample) = Inr page_next"
      "page_next \<in> set (keys corpus)"
    using draw_next [OF assms Cons.prems(1), of d "u i"] by blast
  obtain pr_dict' where
    rv: "record_visit pr_dict page_next = Inr pr_dict'"
      "distinct (keys pr_dict')"
      "set (keys pr_dict') = insert page_next (set (keys pr_dict))"
      "\<forall>c \<in> snd ` set pr_dict'. 0 < c"
      "sum_list (map snd pr_dict') = sum_list (map snd pr_dict) + 1"
    using record_visit_result [OF Cons.prems(2,3), of page_next] by blast
  obtain counts visited where
    ih: "sample_loop corpus d u rounds page_next pr_dict' = Inr counts"
      "walk_loop corpus d u rounds page_next = Inr visited"
      "set visited \<subseteq> set (keys corpus)"
      "distinct (keys counts)"
      "set (keys counts) = set (keys pr_dict') \<union> set visited"
      "\<forall>c \<in> snd ` set counts. 0 < c"
      "sum_list (map snd counts) = sum_list (map snd pr_dict') + int (length rounds)"
    using Cons.IH [OF step(3) rv(2) rv(4)] by blast
  have "sample_loop corpus d u (i # rounds) sample pr_dict = Inr counts"
    using step rv(1) ih(1) by simp
  moreover have "walk_loop corpus d u (i # rounds) sample = Inr (page_next # visited)"
    using step ih(2) by simp
  moreover have "set (page_next # visited) \<subseteq> set (keys corpus)"
    using step(3) ih(3) by simp
  moreover have "set (keys counts) = set (keys pr_dict) \<union> set (page_next # visited)"
    using ih(5) rv(3) by auto
  moreover have "sum_list (map snd counts) = sum_list (map snd pr_dict) + int (length (i # rounds))"
    using ih(7) rv(5) by simp
  ultimately show ?case using ih(4,6) by blast
qed

lemma divide_counts_eq:
  "n \<noteq> 0 \<Longrightarrow>
   divide_counts pr_dict n = Inr (map (\<lambda>(key, c). (key, of_int c / of_int n)) pr_dict)"
  by (induction pr_dict) (auto simp: pydiv_def)

lemma divide_counts_zero: "pr_dict \<noteq> [] \<Longrightarrow> divide_counts pr_dict 0 = Inl ZeroDivisionError"
  by (cases pr_dict) (auto simp: pydiv_def)

lemma sum_divided:
  "sum_list (map snd (map (\<lambda>(key, c). (key, rat_of_int c / of_int n)) pr_dict)) =
   of_int (sum_list (map snd pr_dict)) / of_int n"
  by (induction pr_dict) (auto simp: add_divide_distrib)

lemma keys_divided: "keys (map (\<lambda>(key, c). (key, f c)) pr_dict) = keys pr_dict"
  by (induction pr_dict) (auto simp: keys_def)

lemma random_choice_start:
  "r < length seq \<Longrightarrow> random_choice r seq = Inr (seq ! r) \<and> seq ! r \<in> set seq"
  by (auto simp: random_choice_def)

lemma sample_pagerank_run:
  assumes "graph_ok corpus" and "r < length (keys corpus)" and "1 \<le> n"
  shows "\<exists>counts visited.
           sample_loop corpus d u [1..<nat n] (keys corpus ! r) [(keys corpus ! r, 1)] = Inr counts \<and>
           walk corpus d n r u = Inr (keys corpus ! r # visited) \<and>
           set visited \<subseteq> set (keys corpus) \<and>
           distinct (keys counts) \<and>
           set (keys counts) = set (keys corpus ! r # visited) \<and>
           (\<forall>c \<in> snd ` set counts. 0 < c) \<and>
           sum_list (map snd counts) = n \<and>
           sample_pagerank corpus d n r u =
             Inr (map (\<lambda>(key, c). (key, of_int c / of_int n)) counts)"
proof -
  let ?s = "keys corpus ! r"
  have start: "random_choice r (keys corpus) = Inr ?s" "?s \<in> set (keys corpus)"
    using random_choice_start [OF assms(2)] by auto
  have "distinct (keys [(?s, 1::int)])" "\<forall>c \<in> snd ` set [(?s, 1::int)]. 0 < c"
    by (auto simp: keys_def)
  from sample_loop_walk [OF assms(1) start(2) this, of d u "[1..<nat n]"]
  obtain counts visited where
    run: "sample_loop corpus d u [1..<nat n] ?s [(?s, 1)] = Inr counts"
      "walk_loop corpus d u [1..<nat n] ?s = Inr visited"
      "set visited \<subseteq> set (keys corpus)"
      "distinct (keys counts)"
      "set (keys counts) = set (keys [(?s, 1::int)]) \<union> set visited"
      "\<forall>c \<in> snd ` set counts. 0 < c"
      "sum_list (map snd counts) = sum_list (map snd [(?s, 1::int)]) + int (length [1..<nat n])"
    by blast
  have "sum_list (map snd counts) = n" using run(7) assms(3) by simp
  moreover have "walk corpus d n r u = Inr (?s # visited)"
    using start(1) run(2) by (simp add: walk_def)
  moreover have "set (keys counts) = set (?s # visited)"
    using run(5) by (simp add: keys_def)
  moreover have "sample_pagerank corpus d n r u =
      Inr (map (\<lambda>(key, c). (key, of_int c / of_int n)) counts)"
    using start(1) run(1) assms(3) by (simp add: sample_pagerank_def divide_counts_eq)
  ultimately show ?thesis using run(1,3,4,6) by blast
qed

section \<open>Properties of sample_pagerank\<close>

text \<open>
  C6. For every graph, every damping factor, every \<open>n \<ge> 1\<close> and every outcome of the
  random draws (the start index \<open>r\<close> below the number of pages, any values \<open>u\<close> of
  \<open>random()\<close>), the main loop ends with visit counts that are positive integers summing
  to \<open>n\<close>, \<open>sample_pagerank\<close> returns each of them divided by \<open>n\<close>, and the returned
  values sum to exactly \<open>1\<close>.
\<close>

theorem sample_pagerank_sums_to_one:
  assumes "graph_ok corpus" and "r < length (keys corpus)" and "1 \<le> n"
  shows "\<exists>counts pr.
           sample_loop corpus damping_factor u [1..<nat n] (keys corpus ! r)
             [(keys corpus ! r, 1)] = Inr counts \<and>
           (\<forall>c \<in> snd ` set counts. 0 < c) \<and>
           sum_list (map snd counts) = n \<and>
           sample_pagerank corpus damping_factor n r u = Inr pr \<and>
           pr = map (\<lambda>(key, c). (key, of_int c / of_int n)) counts \<and>
           sum_list (map snd pr) = 1"
proof -
  from sample_pagerank_run [OF assms, of damping_factor u]
  obtain counts where
    run: "sample_loop corpus damping_factor u [1..<nat n] (keys corpus ! r)
            [(keys corpus ! r, 1)] = Inr counts"
      "\<forall>c \<in> snd ` set counts. 0 < c"
      "sum_list (map snd counts) = n"
      "sample_pagerank corpus damping_factor n r u =
         Inr (map (\<lambda>(key, c). (key, of_int c / of_int n)) counts)"
    by blast
  have "sum_list (map snd (map (\<lambda>(key, c). (key, rat_of_int c / of_int n)) counts)) = 1"
    using run(3) assms(3) by (simp only: sum_divided) simp
  with run show ?thesis by blast
qed

text \<open>
  The theorem at a three-page graph with five samples.
\<close>

theorem sample_pagerank_sums_to_one_witness:
  "graph_ok [(''A'', [''B'']), (''B'', [''A'']), (''C'', [''A''])] \<and>
   0 < length (keys [(''A'', [''B'']), (''B'', [''A'']), (''C'', [''A''])]) \<and>
   (1::int) \<le> 5 \<and>
   (\<exists>pr. sample_pagerank [(''A'', [''B'']), (''B'', [''A'']), (''C'', [''A''])] (1 / 2) 5 0
           (\<lambda>i. 1 / 2) = Inr pr \<and>
         sum_list (map snd pr) = 1)"
  using sample_pagerank_sums_to_one
    [of "[(''A'', [''B'']), (''B'', [''A'']), (''C'', [''A''])]" 0 5 "1 / 2" "\<lambda>i. 1 / 2"]
  by (auto simp: graph_ok_def keys_def)

text \<open>
  C8. For every graph, every damping factor, every \<open>n \<ge> 1\<close> and every outcome of the
  random draws, the keys of the map returned by \<open>sample_pagerank\<close> are exactly the pages
  visited by the walk: a page never visited is not a key (looking it up raises
  \<open>KeyError\<close>), no value is \<open>0\<close>, and every key is a page of the graph.
\<close>

theorem sample_pagerank_keys_visited:
  assumes "graph_ok corpus" and "r < length (keys corpus)" and "1 \<le> n"
  shows "\<exists>pr visited.
           sample_pagerank corpus damping_factor n r u = Inr pr \<and>
           walk corpus damping_factor n r u = Inr visited \<and>
           set (keys pr) = set visited \<and>
           set (keys pr) \<subseteq> set (keys corpus) \<and>
           (\<forall>p. p \<notin> set visited \<longrightarrow> dict_get pr p = Inl KeyError) \<and>
           (\<forall>v \<in> snd ` set pr. 0 < v)"
proof -
  let ?s = "keys corpus ! r"
  from sample_pagerank_run [OF assms, of damping_factor u]
  obtain counts visited where
    run: "walk corpus damping_factor n r u = Inr (?s # visited)"
      "set visited \<subseteq> set (keys corpus)"
      "set (keys counts) = set (?s # visited)"
      "\<forall>c \<in> snd ` set counts. 0 < c"
      "sample_pagerank corpus damping_factor n r u =
         Inr (map (\<lambda>(key, c). (key, of_int c / of_int n)) counts)"
    by blast
  let ?pr = "map (\<lambda>(key, c). (key, rat_of_int c / of_int n)) counts"
  have k: "keys ?pr = keys counts" by (rule keys_divided)
  have "set (keys ?pr) = set (?s # visited)" using k run(3) by simp
  moreover have "set (keys ?pr) \<subseteq> set (keys corpus)"
    using k run(2,3) assms(2) by auto
  moreover have "dict_get ?pr p = Inl KeyError" if "p \<notin> set (?s # visited)" for p
  proof -
    from that have "p \<notin> set (keys ?pr)" using k run(3) by simp
    then show ?thesis by (cases "dict_get ?pr p") (auto simp: dict_get_Inl dest: dict_get_keys)
  qed
  moreover have "\<forall>v \<in> snd ` set ?pr. 0 < v"
    using run(4) assms(3) by (auto simp: zero_less_divide_iff)
  ultimately show ?thesis using run(1,5) by blast
qed

text \<open>
  A walk of five samples that alternates between \<open>A\<close> and \<open>B\<close> and never visits \<open>C\<close>.
\<close>

lemma walk_example:
  "walk [(''A'', [''B'']), (''B'', [''A'']), (''C'', [''A''])] (1 / 2) 5 0 (\<lambda>i. 1 / 2) =
     Inr [''A'', ''B'', ''A'', ''B'', ''A'']"
  by code_simp

text \<open>
  The theorem at that walk: the returned map has the keys \<open>A\<close> and \<open>B\<close> and no key \<open>C\<close>.
\<close>

theorem sample_pagerank_keys_visited_witness:
  "graph_ok [(''A'', [''B'']), (''B'', [''A'']), (''C'', [''A''])] \<and>
   0 < length (keys [(''A'', [''B'']), (''B'', [''A'']), (''C'', [''A''])]) \<and>
   (1::int) \<le> 5 \<and>
   (\<exists>pr. sample_pagerank [(''A'', [''B'']), (''B'', [''A'']), (''C'', [''A''])] (1 / 2) 5 0
           (\<lambda>i. 1 / 2) = Inr pr \<and>
         set (keys pr) = {''A'', ''B''} \<and>
         dict_get pr ''C'' = Inl KeyError)"
proof -
  let ?G = "[(''A'', [''B'']), (''B'', [''A'']), (''C'', [''A''])]"
  have h: "graph_ok ?G" "0 < length (keys ?G)" "(1::int) \<le> 5"
    by (simp_all add: graph_ok_def keys_def)
  from sample_pagerank_keys_visited [OF h, of "1 / 2" "\<lambda>i. 1 / 2"]
  obtain pr visited where
    r: "sample_pagerank ?G (1 / 2) 5 0 (\<lambda>i. 1 / 2) = Inr pr"
      "walk ?G (1 / 2) 5 0 (\<lambda>i. 1 / 2) = Inr visited"
      "set (keys pr) = set visited"
      "\<forall>p. p \<notin> set visited \<longrightarrow> dict_get pr p = Inl KeyError"
    by blast
  have v: "visited = [''A'', ''B'', ''A'', ''B'', ''A'']"
    using r(2) walk_example by simp
  have "set (keys pr) = {''A'', ''B''}" using r(3) v by auto
  moreover have "dict_get pr ''C'' = Inl KeyError" using r(4) v by simp
  ultimately show ?thesis using h r(1) by blast
qed

text \<open>
  C3 as stated makes \<open>sample_pagerank\<close> fail for every \<open>n < 1\<close>. With \<open>n = -1\<close> the loop
  \<open>range(1, n)\<close> is empty, the one count is divided by \<open>-1\<close>, and a map is returned.
\<close>

theorem sample_pagerank_negative_counterexample:
  "[(''A'', [''B'']), (''B'', [''A''])] \<noteq> [] \<and> (- 1 :: int) < 1 \<and>
   sample_pagerank [(''A'', [''B'']), (''B'', [''A''])] (85 / 100) (- 1) 0 (\<lambda>i. 0) =
     Inr [(''A'', - 1)]"
  by (simp add: sample_pagerank_def random_choice_def keys_def pydiv_def)

text \<open>
  C3 (as amended). For every non-empty graph, \<open>sample_pagerank\<close> with \<open>n = 0\<close> fails
  (the count of the start page is divided by zero), and with \<open>n < 0\<close> it raises no error
  and returns the map with the start page alone, at \<open>1 / n\<close>.
\<close>

theorem sample_pagerank_small_n:
  assumes "r < length (keys corpus)"
  shows "(n = 0 \<longrightarrow> sample_pagerank corpus damping_factor n r u = Inl ZeroDivisionError) \<and>
         (n < 0 \<longrightarrow> sample_pagerank corpus damping_factor n r u =
                       Inr [(keys corpus ! r, 1 / of_int n)])"
  using random_choice_start [OF assms]
  by (auto simp: sample_pagerank_def pydiv_def)

text \<open>
  The theorem at \<open>n = 0\<close> and at \<open>n = -2\<close> on the two-page graph.
\<close>

theorem sample_pagerank_small_n_witness:
  "0 < length (keys [(''A'', [''B'']), (''B'', [''A''])]) \<and>
   sample_pagerank [(''A'', [''B'']), (''B'', [''A''])] (85 / 100) 0 0 (\<lambda>i. 0) =
     Inl ZeroDivisionError \<and>
   sample_pagerank [(''A'', [''B'']), (''B'', [''A''])] (85 / 100) (- 2) 0 (\<lambda>i. 0) =
     Inr [(''A'', - 1 / 2)]"
  using sample_pagerank_small_n [of 0 "[(''A'', [''B'']), (''B'', [''A''])]" 0 "85 / 100" "\<lambda>i. 0"]
    sample_pagerank_small_n [of 0 "[(''A'', [''B'']), (''B'', [''A''])]" "- 2" "85 / 100" "\<lambda>i. 0"]
  by (simp add: keys_def)

section \<open>The sweep\<close>

text \<open>
  One pass of the inner loop is the inbound sum of the specification's formula, read
  from the rank map as it is when the pass starts; it divides only by the size of a link
  set that holds \<open>key\<close>. One step of the outer loop stores the new rank of \<open>key\<close> before
  the next key is looked at.
\<close>

lemma rank_of_update: "rank_of (AList.update k v d) = (rank_of d)(k := v)"
  by (rule ext) (simp add: rank_of_def update_conv')

lemma dict_get_rank_of: "dict_get d k = Inr v \<Longrightarrow> rank_of d k = v"
  by (simp add: dict_get_Inr rank_of_def)

lemma dict_get_outlinks: "dict_get corpus q = Inr links \<Longrightarrow> outlinks corpus q = links"
  by (simp add: dict_get_Inr outlinks_def)

lemma inbound_loop_sum:
  "set pages \<subseteq> set (keys corpus) \<Longrightarrow> set pages \<subseteq> set (keys ranks) \<Longrightarrow>
   inbound_loop corpus ranks key pages s =
     Inr (s + (\<Sum>q\<leftarrow>pages. if key \<in> set (outlinks corpus q)
                          then rank_of ranks q / of_nat (length (outlinks corpus q)) else 0))"
proof (induction pages arbitrary: s)
  case Nil
  then show ?case by simp
next
  case (Cons page pages)
  obtain links where l: "dict_get corpus page = Inr links"
    using Cons.prems(1) dict_get_total [of page corpus] by auto
  obtain v where v: "dict_get ranks page = Inr v"
    using Cons.prems(2) dict_get_total [of page ranks] by auto
  have ih: "inbound_loop corpus ranks key pages s' =
     Inr (s' + (\<Sum>q\<leftarrow>pages. if key \<in> set (outlinks corpus q)
                          then rank_of ranks q / of_nat (length (outlinks corpus q)) else 0))" for s'
    using Cons.IH Cons.prems by simp
  show ?case
  proof (cases "key \<in> set links")
    case True
    then have "links \<noteq> []" by auto
    with True show ?thesis
      by (simp add: l v ih pydiv_def dict_get_rank_of [OF v] dict_get_outlinks [OF l] add.assoc)
  next
    case False
    then show ?thesis by (simp add: l ih dict_get_outlinks [OF l])
  qed
qed

lemma inbound_loop_no_zero_division:
  "inbound_loop corpus ranks key pages s \<noteq> Inl ZeroDivisionError"
proof (induction pages arbitrary: s)
  case Nil
  then show ?case by simp
next
  case (Cons page pages)
  show ?case
  proof (cases "dict_get corpus page")
    case (Inl e)
    then have "e = KeyError" by (simp add: dict_get_Inl)
    with Inl show ?thesis by simp
  next
    case (Inr links)
    show ?thesis
    proof (cases "key \<in> set links")
      case False
      with Inr Cons.IH show ?thesis by simp
    next
      case True
      then have ne: "links \<noteq> []" by auto
      show ?thesis
      proof (cases "dict_get ranks page")
        case (Inl e)
        then have "e = KeyError" by (simp add: dict_get_Inl)
        with Inl \<open>dict_get corpus page = Inr links\<close> True show ?thesis
          by simp
      next
        case (Inr v)
        with \<open>dict_get corpus page = Inr links\<close> True ne Cons.IH show ?thesis
          by (simp add: pydiv_def)
      qed
    qed
  qed
qed

lemma sweep_loop_no_zero_division:
  "set ks \<subseteq> set (keys corpus) \<Longrightarrow> sweep_loop corpus d ks ranks c \<noteq> Inl ZeroDivisionError"
proof (induction ks arbitrary: ranks c)
  case Nil
  then show ?case by simp
next
  case (Cons key ks)
  have ne: "keys corpus \<noteq> []" using Cons.prems by auto
  have ih: "sweep_loop corpus d ks ranks' c' \<noteq> Inl ZeroDivisionError" for ranks' c'
    using Cons.IH Cons.prems by simp
  show ?case
  proof (cases "inbound_loop corpus ranks key (keys corpus) 0")
    case (Inl e)
    then show ?thesis using inbound_loop_no_zero_division [of corpus ranks key "keys corpus" 0]
      by auto
  next
    case (Inr s)
    show ?thesis
    proof (cases "dict_get ranks key")
      case (Inl e)
      then have "e = KeyError" by (simp add: dict_get_Inl)
      with Inl Inr ne show ?thesis by (simp add: pydiv_def Let_def)
    next
      case (Inr old)
      with \<open>inbound_loop corpus ranks key (keys corpus) 0 = Inr s\<close> ne ih show ?thesis
        by (simp add: pydiv_def Let_def)
    qed
  qed
qed

lemma inbound_loop_dangling:
  assumes "dict_get corpus q = Inr []"
  shows "inbound_loop corpus (AList.update q v ranks) key pages s =
         inbound_loop corpus ranks key pages s"
proof (induction pages arbitrary: s)
  case Nil
  then show ?case by simp
next
  case (Cons page pages)
  show ?case
  proof (cases "page = q")
    case True
    with assms Cons.IH show ?thesis by simp
  next
    case False
    then have "dict_get (AList.update q v ranks) page = dict_get ranks page"
      by (simp add: dict_get_def update_conv')
    with Cons.IH show ?thesis by (simp split: sum.splits)
  qed
qed

lemma sweep_step:
  assumes "set (keys corpus) \<subseteq> set (keys ranks)" and "key \<in> set (keys ranks)"
    and "corpus \<noteq> []"
  shows "sweep_loop corpus d (key # ks) ranks c =
         sweep_loop corpus d ks
           (AList.update key (new_rank corpus d (rank_of ranks) key) ranks)
           (if \<bar>rank_of ranks key - new_rank corpus d (rank_of ranks) key\<bar> < 1 / 10000
            then c + 1 else c)"
proof -
  obtain old where old: "dict_get ranks key = Inr old"
    using assms(2) dict_get_total by blast
  have ne: "keys corpus \<noteq> []" using assms(3) by (simp add: keys_def)
  show ?thesis
    using inbound_loop_sum [OF subset_refl assms(1), of key 0] ne
    by (simp add: old dict_get_rank_of [OF old] pydiv_def Let_def new_rank_def)
qed

lemma sweep_loop_ranks:
  assumes "corpus \<noteq> []"
  shows "set (keys corpus) \<subseteq> set (keys ranks) \<Longrightarrow> set ks \<subseteq> set (keys ranks) \<Longrightarrow>
         distinct ks \<Longrightarrow>
         \<exists>ranks' c'. sweep_loop corpus d ks ranks c = Inr (ranks', c') \<and>
           keys ranks' = keys ranks \<and>
           (\<forall>q. q \<notin> set ks \<longrightarrow> rank_of ranks' q = rank_of ranks q) \<and>
           (\<forall>i<length ks.
              rank_of ranks' (ks ! i) =
                new_rank corpus d
                  (\<lambda>q. if q \<in> set (take i ks) then rank_of ranks' q else rank_of ranks q)
                  (ks ! i))"
proof (induction ks arbitrary: ranks c)
  case Nil
  then show ?case by simp
next
  case (Cons key ks)
  let ?new = "new_rank corpus d (rank_of ranks) key"
  let ?ranks1 = "AList.update key ?new ranks"
  let ?c1 = "if \<bar>rank_of ranks key - ?new\<bar> < 1 / 10000 then c + 1 else c"
  have key: "key \<in> set (keys ranks)" "key \<notin> set ks" using Cons.prems by auto
  have k1: "keys ?ranks1 = keys ranks" using key(1) by (simp add: keys_update)
  have step: "sweep_loop corpus d (key # ks) ranks c = sweep_loop corpus d ks ?ranks1 ?c1"
    by (rule sweep_step [OF Cons.prems(1) key(1) assms])
  from Cons.IH [of ?ranks1 ?c1] Cons.prems k1
  obtain ranks' c' where
    ih: "sweep_loop corpus d ks ?ranks1 ?c1 = Inr (ranks', c')"
      "keys ranks' = keys ?ranks1"
      "\<forall>q. q \<notin> set ks \<longrightarrow> rank_of ranks' q = rank_of ?ranks1 q"
      "\<forall>i<length ks.
         rank_of ranks' (ks ! i) =
           new_rank corpus d
             (\<lambda>q. if q \<in> set (take i ks) then rank_of ranks' q else rank_of ?ranks1 q)
             (ks ! i)"
    by auto
  have at_key: "rank_of ranks' key = ?new"
    using ih(3) key(2) by (simp add: rank_of_update)
  have outside: "rank_of ranks' q = rank_of ranks q" if "q \<notin> set (key # ks)" for q
    using ih(3) that by (simp add: rank_of_update)
  have inside: "rank_of ranks' ((key # ks) ! i) =
      new_rank corpus d
        (\<lambda>q. if q \<in> set (take i (key # ks)) then rank_of ranks' q else rank_of ranks q)
        ((key # ks) ! i)" if "i < length (key # ks)" for i
  proof (cases i)
    case 0
    then show ?thesis using at_key by simp
  next
    case (Suc j)
    then have j: "j < length ks" using that by simp
    have "(\<lambda>q. if q \<in> set (take j ks) then rank_of ranks' q else rank_of ?ranks1 q) =
          (\<lambda>q. if q \<in> set (take (Suc j) (key # ks)) then rank_of ranks' q else rank_of ranks q)"
      using at_key by (auto simp: rank_of_update fun_eq_iff)
    with ih(4) j Suc show ?thesis by simp
  qed
  have "sweep_loop corpus d (key # ks) ranks c = Inr (ranks', c')"
    using step ih(1) by simp
  moreover have "keys ranks' = keys ranks" using ih(2) k1 by simp
  ultimately show ?case using outside inside by blast
qed

lemma new_rank_lower_bound:
  assumes "0 \<le> d" and "\<forall>q \<in> set (keys corpus). 0 \<le> rank q"
  shows "(1 - d) / of_nat (length (keys corpus)) \<le> new_rank corpus d rank p"
proof -
  have "0 \<le> (\<Sum>q\<leftarrow>keys corpus. if p \<in> set (outlinks corpus q)
                  then rank q / of_nat (length (outlinks corpus q)) else 0)"
    using assms(2) by (intro sum_list_nonneg) auto
  with assms(1) show ?thesis by (simp add: new_rank_def)
qed

lemma rank_of_value: "k \<in> set (keys d) \<Longrightarrow> rank_of d k \<in> snd ` set d"
proof -
  assume "k \<in> set (keys d)"
  then obtain v where v: "dict_get d k = Inr v" using dict_get_total by blast
  from dict_get_entry [OF v] dict_get_rank_of [OF v] show ?thesis by force
qed

lemma sweep_loop_positive:
  assumes "corpus \<noteq> []" and "0 \<le> d" and "d < 1"
  shows "set (keys corpus) \<subseteq> set (keys ranks) \<Longrightarrow> set ks \<subseteq> set (keys ranks) \<Longrightarrow>
         \<forall>v \<in> snd ` set ranks. 0 < v \<Longrightarrow>
         \<exists>ranks' c'. sweep_loop corpus d ks ranks c = Inr (ranks', c') \<and>
           keys ranks' = keys ranks \<and>
           (\<forall>v \<in> snd ` set ranks'. 0 < v) \<and>
           (\<forall>q. q \<in> set ks \<or> (1 - d) / of_nat (length (keys corpus)) \<le> rank_of ranks q
                \<longrightarrow> (1 - d) / of_nat (length (keys corpus)) \<le> rank_of ranks' q)"
proof (induction ks arbitrary: ranks c)
  case Nil
  then show ?case by simp
next
  case (Cons key ks)
  let ?base = "(1 - d) / of_nat (length (keys corpus)) :: rat"
  let ?new = "new_rank corpus d (rank_of ranks) key"
  let ?ranks1 = "AList.update key ?new ranks"
  let ?c1 = "if \<bar>rank_of ranks key - ?new\<bar> < 1 / 10000 then c + 1 else c"
  have key: "key \<in> set (keys ranks)" using Cons.prems by auto
  have k1: "keys ?ranks1 = keys ranks" using key by (simp add: keys_update)
  have step: "sweep_loop corpus d (key # ks) ranks c = sweep_loop corpus d ks ?ranks1 ?c1"
    by (rule sweep_step [OF Cons.prems(1) key assms(1)])
  have "\<forall>q \<in> set (keys corpus). 0 \<le> rank_of ranks q"
    using Cons.prems(1,3) rank_of_value [of _ ranks] by (metis less_imp_le subsetD)
  then have bound: "?base \<le> ?new" using assms(2) by (rule new_rank_lower_bound [rotated])
  have "0 < ?base" using assms(1,3) by (simp add: keys_def)
  with bound have "0 < ?new" by simp
  then have pos1: "\<forall>v \<in> snd ` set ?ranks1. 0 < v"
    using Cons.prems(3) set_update_subset [of key ?new ranks] by fastforce
  from Cons.IH [of ?ranks1 ?c1] Cons.prems(1,2) k1 pos1
  obtain ranks' c' where
    ih: "sweep_loop corpus d ks ?ranks1 ?c1 = Inr (ranks', c')"
      "keys ranks' = keys ?ranks1"
      "\<forall>v \<in> snd ` set ranks'. 0 < v"
      "\<forall>q. q \<in> set ks \<or> ?base \<le> rank_of ?ranks1 q \<longrightarrow> ?base \<le> rank_of ranks' q"
    by auto
  have "?base \<le> rank_of ranks' q" if "q \<in> set (key # ks) \<or> ?base \<le> rank_of ranks q" for q
  proof (cases "q = key")
    case True
    then have "?base \<le> rank_of ?ranks1 q" using bound by (simp add: rank_of_update)
    with ih(4) show ?thesis by blast
  next
    case False
    then have "rank_of ?ranks1 q = rank_of ranks q" by (simp add: rank_of_update)
    with ih(4) that False show ?thesis by auto
  qed
  then have "\<forall>q. q \<in> set (key # ks) \<or> ?base \<le> rank_of ranks q \<longrightarrow> ?base \<le> rank_of ranks' q"
    by blast
  moreover have "sweep_loop corpus d (key # ks) ranks c = Inr (ranks', c')"
    using step ih(1) by simp
  moreover have "keys ranks' = keys ranks" using ih(2) k1 by simp
  ultimately show ?case using ih(3) by blast
qed

section \<open>The convergence loop and the normalization\<close>

lemma first_distribution_eq:
  "corpus \<noteq> [] \<Longrightarrow>
   first_distribution corpus ks d = Inr (assign_all ks (1 / of_nat (length (keys corpus))) d)"
  by (induction ks arbitrary: d) (auto simp: pydiv_def keys_def)

lemma first_distribution_uniform:
  assumes "distinct (keys corpus)"
  shows "first_distribution corpus (keys corpus) [] =
         Inr (map (\<lambda>k. (k, 1 / of_nat (length (keys corpus)))) (keys corpus))"
proof (cases "corpus = []")
  case True
  then show ?thesis by (simp add: keys_def)
next
  case False
  then show ?thesis
    using assign_all_fresh [OF assms, of "[]"] by (simp add: first_distribution_eq keys_def)
qed

lemma sweep_positive:
  assumes "corpus \<noteq> []" and "0 \<le> d" and "d < 1" and "ranks_ok corpus ranks"
  shows "\<exists>ranks' c'. sweep corpus d ranks = Inr (ranks', c') \<and> ranks_ok corpus ranks' \<and>
           (\<forall>q \<in> set (keys corpus).
              (1 - d) / of_nat (length (keys corpus)) \<le> rank_of ranks' q)"
proof -
  have k: "keys ranks = keys corpus" and pos: "\<forall>v \<in> snd ` set ranks. 0 < v"
    using assms(4) by (auto simp: ranks_ok_def)
  from sweep_loop_positive [OF assms(1-3), of ranks "keys corpus" 0] k pos
  show ?thesis unfolding sweep_def ranks_ok_def by fastforce
qed

text \<open>
  Fixpoint induction on the loop: if it returns, it returns a rank map that satisfies
  the invariant and whose ranks are all at least \<open>(1 - damping) / |pages|\<close>.
\<close>

lemma iterate_loop_positive:
  assumes "iterate_loop corpus d ranks = Some r"
  shows "corpus \<noteq> [] \<and> 0 \<le> d \<and> d < 1 \<and> ranks_ok corpus ranks \<longrightarrow>
         (\<exists>ranks'. r = Inr ranks' \<and> ranks_ok corpus ranks' \<and>
            (\<forall>q \<in> set (keys corpus).
               (1 - d) / of_nat (length (keys corpus)) \<le> rank_of ranks' q))"
proof (rule iterate_loop.raw_induct [OF _ assms])
  fix loop :: "corpus \<Rightarrow> rat \<Rightarrow> rat pydict \<Rightarrow> (error + rat pydict) option"
  fix corpus d ranks r
  assume IH: "\<And>corpus d ranks r. loop corpus d ranks = Some r \<Longrightarrow>
      corpus \<noteq> [] \<and> 0 \<le> d \<and> d < 1 \<and> ranks_ok corpus ranks \<longrightarrow>
      (\<exists>ranks'. r = Inr ranks' \<and> ranks_ok corpus ranks' \<and>
         (\<forall>q \<in> set (keys corpus).
            (1 - d) / of_nat (length (keys corpus)) \<le> rank_of ranks' q))"
  assume body: "(case sweep corpus d ranks of Inl e \<Rightarrow> Some (Inl e)
      | Inr (iterate_dict', count) \<Rightarrow>
          if count = length (keys corpus) then Some (Inr iterate_dict')
          else loop corpus d iterate_dict') = Some r"
  show "corpus \<noteq> [] \<and> 0 \<le> d \<and> d < 1 \<and> ranks_ok corpus ranks \<longrightarrow>
      (\<exists>ranks'. r = Inr ranks' \<and> ranks_ok corpus ranks' \<and>
         (\<forall>q \<in> set (keys corpus).
            (1 - d) / of_nat (length (keys corpus)) \<le> rank_of ranks' q))"
  proof
    assume a: "corpus \<noteq> [] \<and> 0 \<le> d \<and> d < 1 \<and> ranks_ok corpus ranks"
    then obtain ranks' c' where
      s: "sweep corpus d ranks = Inr (ranks', c')" "ranks_ok corpus ranks'"
        "\<forall>q \<in> set (keys corpus). (1 - d) / of_nat (length (keys corpus)) \<le> rank_of ranks' q"
      using sweep_positive [of corpus d ranks] by blast
    show "\<exists>ranks'. r = Inr ranks' \<and> ranks_ok corpus ranks' \<and>
            (\<forall>q \<in> set (keys corpus).
               (1 - d) / of_nat (length (keys corpus)) \<le> rank_of ranks' q)"
    proof (cases "c' = length (keys corpus)")
      case True
      with body s(1) have "r = Inr ranks'" by simp
      with s(2,3) show ?thesis by blast
    next
      case False
      with body s(1) have "loop corpus d ranks' = Some r" by simp
      from IH [OF this] a s(2) show ?thesis by blast
    qed
  qed
qed

lemma total_loop_sum:
  "set ks \<subseteq> set (keys ranks) \<Longrightarrow>
   total_loop ranks ks t = Inr (t + (\<Sum>k\<leftarrow>ks. rank_of ranks k))"
proof (induction ks arbitrary: t)
  case Nil
  then show ?case by simp
next
  case (Cons key ks)
  then obtain v where v: "dict_get ranks key = Inr v"
    using dict_get_total [of key ranks] by auto
  with Cons show ?case by (simp add: dict_get_rank_of [OF v] add.assoc)
qed

lemma sum_rank_of_keys:
  "distinct (keys d) \<Longrightarrow> (\<Sum>k\<leftarrow>keys d. rank_of d k) = sum_list (map snd d)"
proof (induction d)
  case Nil
  then show ?case by (simp add: keys_def)
next
  case (Cons e d)
  obtain k v where e: "e = (k, v)" by (cases e)
  have dk: "distinct (keys d)" "k \<notin> set (keys d)" using Cons.prems e by (auto simp: keys_def)
  have "map (rank_of ((k, v) # d)) (keys d) = map (rank_of d) (keys d)"
    using dk(2) by (intro map_cong) (auto simp: rank_of_def)
  then have "(\<Sum>q\<leftarrow>keys d. rank_of ((k, v) # d) q) = (\<Sum>q\<leftarrow>keys d. rank_of d q)"
    by (rule arg_cong)
  then have "(\<Sum>q\<leftarrow>keys d. rank_of ((k, v) # d) q) = sum_list (map snd d)"
    by (simp only: Cons.IH [OF dk(1)])
  then show ?case by (simp add: e keys_def rank_of_def)
qed

lemma normalize_loop_result:
  assumes "t \<noteq> 0"
  shows "distinct ks \<Longrightarrow> set ks \<subseteq> set (keys ranks) \<Longrightarrow>
         \<exists>ranks'. normalize_loop ks t ranks = Inr ranks' \<and> keys ranks' = keys ranks \<and>
           (\<forall>q. rank_of ranks' q = (if q \<in> set ks then rank_of ranks q / t else rank_of ranks q))"
proof (induction ks arbitrary: ranks)
  case Nil
  then show ?case by simp
next
  case (Cons key ks)
  obtain v where v: "dict_get ranks key = Inr v"
    using Cons.prems(2) dict_get_total [of key ranks] by auto
  let ?ranks1 = "AList.update key (v / t) ranks"
  have k1: "keys ?ranks1 = keys ranks" using Cons.prems(2) by (simp add: keys_update)
  have step: "normalize_loop (key # ks) t ranks = normalize_loop ks t ?ranks1"
    using v assms by (simp add: pydiv_def)
  from Cons.IH [of ?ranks1] Cons.prems k1
  obtain ranks' where
    ih: "normalize_loop ks t ?ranks1 = Inr ranks'" "keys ranks' = keys ?ranks1"
      "\<forall>q. rank_of ranks' q = (if q \<in> set ks then rank_of ?ranks1 q / t else rank_of ?ranks1 q)"
    by auto
  have "rank_of ranks' q = (if q \<in> set (key # ks) then rank_of ranks q / t else rank_of ranks q)"
    for q
    using ih(3) Cons.prems(1) dict_get_rank_of [OF v] by (auto simp: rank_of_update)
  with step ih(1,2) k1 show ?case by simp
qed

lemma sum_list_divided: "(\<Sum>k\<leftarrow>ks. f k / t) = (\<Sum>k\<leftarrow>ks. f k) / (t::rat)"
  by (induction ks) (auto simp: add_divide_distrib)

lemma sum_list_positive: "xs \<noteq> [] \<Longrightarrow> \<forall>x \<in> set xs. 0 < x \<Longrightarrow> 0 < sum_list (xs::rat list)"
  by (induction xs) (auto intro: add_pos_nonneg sum_list_nonneg less_imp_le)

lemma normalization_result:
  assumes "distinct (keys ranks)" and "sum_list (map snd ranks) \<noteq> 0"
  shows "\<exists>res. normalization ranks = Inr res \<and> keys res = keys ranks \<and>
           (\<forall>q \<in> set (keys ranks). rank_of res q = rank_of ranks q / sum_list (map snd ranks)) \<and>
           sum_list (map snd res) = 1"
proof -
  let ?t = "sum_list (map snd ranks)"
  have tot: "total_loop ranks (keys ranks) 0 = Inr ?t"
    using total_loop_sum [OF subset_refl, of ranks 0] sum_rank_of_keys [OF assms(1)] by simp
  from normalize_loop_result [OF assms(2) assms(1) subset_refl]
  obtain res where
    res: "normalize_loop (keys ranks) ?t ranks = Inr res" "keys res = keys ranks"
      "\<forall>q. rank_of res q = (if q \<in> set (keys ranks) then rank_of ranks q / ?t else rank_of ranks q)"
    by blast
  have "sum_list (map snd res) = (\<Sum>k\<leftarrow>keys res. rank_of res k)"
    using sum_rank_of_keys [of res] assms(1) res(2) by simp
  also have "\<dots> = (\<Sum>k\<leftarrow>keys ranks. rank_of ranks k / ?t)"
    using res(2,3) by (simp cong: map_cong)
  also have "\<dots> = ?t / ?t"
    by (simp only: sum_list_divided sum_rank_of_keys [OF assms(1)])
  finally have "sum_list (map snd res) = 1" using assms(2) by simp
  moreover have "normalization ranks = Inr res" using tot res(1) by (simp add: normalization_def)
  ultimately show ?thesis using res(2,3) by auto
qed

section \<open>Properties of iterate_pagerank\<close>

text \<open>
  C1 as stated makes a sweep one application of the reference update to the previous
  rank map. On the graph \<open>A \<rightarrow> B\<close>, \<open>B \<rightarrow> A\<close>, \<open>C \<rightarrow> A\<close> with damping \<open>1/2\<close>, the first sweep
  starts from \<open>1/3\<close> for every page; the reference update gives \<open>B\<close> the rank \<open>1/3\<close>, the
  sweep gives it \<open>5/12\<close>, computed from the rank \<open>1/2\<close> that \<open>A\<close> received earlier in the
  same sweep.
\<close>

theorem sweep_simultaneous_counterexample:
  "first_distribution [(''A'', [''B'']), (''B'', [''A'']), (''C'', [''A''])]
     (keys [(''A'', [''B'']), (''B'', [''A'']), (''C'', [''A''])]) [] =
     Inr [(''A'', 1 / 3), (''B'', 1 / 3), (''C'', 1 / 3)] \<and>
   sweep [(''A'', [''B'']), (''B'', [''A'']), (''C'', [''A''])] (1 / 2)
     [(''A'', 1 / 3), (''B'', 1 / 3), (''C'', 1 / 3)] =
     Inr ([(''A'', 1 / 2), (''B'', 5 / 12), (''C'', 1 / 6)], 0) \<and>
   reference_update [(''A'', [''B'']), (''B'', [''A'']), (''C'', [''A''])] (1 / 2)
     [(''A'', 1 / 3), (''B'', 1 / 3), (''C'', 1 / 3)] =
     [(''A'', 1 / 2), (''B'', 1 / 3), (''C'', 1 / 6)]"
  by code_simp

text \<open>
  C1 (as amended). A sweep of \<open>iterate_pagerank\<close> updates the ranks in place, page by
  page in the order of the graph's keys: for every graph and every damping factor, the
  new rank of the \<open>i\<close>-th page \<open>p\<close> is \<open>(1 - damping) / |pages| + damping * sum over pages
  q linking to p of rank(q) / |outlinks(q)|\<close>, where \<open>rank(q)\<close> is the rank already
  updated in this sweep for the pages before \<open>p\<close> in the key order and the previous
  sweep's rank for all other pages. The rank map keeps the keys of the graph, so the
  same holds for the next sweep.
\<close>

theorem sweep_in_place:
  assumes "distinct (keys corpus)" and "keys ranks = keys corpus"
  shows "\<exists>ranks' count.
           sweep corpus damping_factor ranks = Inr (ranks', count) \<and>
           keys ranks' = keys corpus \<and>
           (\<forall>i<length (keys corpus).
              rank_of ranks' (keys corpus ! i) =
                new_rank corpus damping_factor
                  (\<lambda>q. if q \<in> set (take i (keys corpus)) then rank_of ranks' q
                       else rank_of ranks q)
                  (keys corpus ! i))"
proof (cases "corpus = []")
  case True
  then show ?thesis using assms(2) by (simp add: sweep_def keys_def)
next
  case False
  from sweep_loop_ranks [OF False, of ranks "keys corpus" damping_factor 0] assms
  show ?thesis unfolding sweep_def by auto
qed

lemma three_pages_sweep:
  "sweep [(''A'', [''B'']), (''B'', [''A'']), (''C'', [''A''])] (1 / 2)
     [(''A'', 1 / 3), (''B'', 1 / 3), (''C'', 1 / 3)] =
     Inr ([(''A'', 1 / 2), (''B'', 5 / 12), (''C'', 1 / 6)], 0)"
  by code_simp

text \<open>
  The theorem at the first sweep of the three-page graph: the new rank of \<open>B\<close> is the
  formula on the map that already holds the new rank of \<open>A\<close>.
\<close>

theorem sweep_in_place_witness:
  "distinct (keys [(''A'', [''B'']), (''B'', [''A'']), (''C'', [''A''])]) \<and>
   keys [(''A'', 1 / 3 :: rat), (''B'', 1 / 3), (''C'', 1 / 3)] =
     keys [(''A'', [''B'']), (''B'', [''A'']), (''C'', [''A''])] \<and>
   (\<exists>ranks' count.
      sweep [(''A'', [''B'']), (''B'', [''A'']), (''C'', [''A''])] (1 / 2)
        [(''A'', 1 / 3), (''B'', 1 / 3), (''C'', 1 / 3)] = Inr (ranks', count) \<and>
      rank_of ranks' ''B'' =
        new_rank [(''A'', [''B'']), (''B'', [''A'']), (''C'', [''A''])] (1 / 2)
          (\<lambda>q. if q \<in> {''A''} then rank_of ranks' q
               else rank_of [(''A'', 1 / 3), (''B'', 1 / 3), (''C'', 1 / 3)] q)
          ''B'' \<and>
      rank_of ranks' ''B'' = 5 / 12)"
proof -
  let ?G = "[(''A'', [''B'']), (''B'', [''A'']), (''C'', [''A''])]"
  let ?R = "[(''A'', 1 / 3 :: rat), (''B'', 1 / 3), (''C'', 1 / 3)]"
  have h: "distinct (keys ?G)" "keys ?R = keys ?G" by (simp_all add: keys_def)
  from sweep_in_place [OF h, of "1 / 2"]
  obtain ranks' count where
    r: "sweep ?G (1 / 2) ?R = Inr (ranks', count)"
      "\<forall>i<length (keys ?G).
         rank_of ranks' (keys ?G ! i) =
           new_rank ?G (1 / 2)
             (\<lambda>q. if q \<in> set (take i (keys ?G)) then rank_of ranks' q else rank_of ?R q)
             (keys ?G ! i)"
    by blast
  have "rank_of ranks' (keys ?G ! 1) =
      new_rank ?G (1 / 2)
        (\<lambda>q. if q \<in> set (take 1 (keys ?G)) then rank_of ranks' q else rank_of ?R q)
        (keys ?G ! 1)"
    using r(2) [rule_format, of 1] by (simp add: keys_def)
  then have "rank_of ranks' ''B'' =
      new_rank ?G (1 / 2) (\<lambda>q. if q \<in> {''A''} then rank_of ranks' q else rank_of ?R q) ''B''"
    by (simp add: keys_def)
  moreover have "rank_of ranks' ''B'' = 5 / 12"
    using r(1) three_pages_sweep by (auto simp: rank_of_def)
  ultimately show ?thesis using h r(1) by blast
qed

text \<open>
  C10. For every graph and every rank map, dangling nodes included, a sweep never
  raises \<open>ZeroDivisionError\<close>: a rank is divided by the size of a link set only when that
  set holds the page being updated. A page with an empty link set adds no term to any
  inbound sum: changing its rank leaves the inbound sum of every page as it was.
\<close>

theorem sweep_division_safe:
  "sweep corpus damping_factor ranks \<noteq> Inl ZeroDivisionError \<and>
   (dict_get corpus q = Inr [] \<longrightarrow>
      inbound_loop corpus (AList.update q v ranks) key (keys corpus) 0 =
      inbound_loop corpus ranks key (keys corpus) 0)"
  using sweep_loop_no_zero_division [OF subset_refl, of corpus damping_factor ranks 0]
    inbound_loop_dangling [of corpus q v ranks key "keys corpus" 0]
  by (simp add: sweep_def)

text \<open>
  The theorem at the chain \<open>A \<rightarrow> B \<rightarrow> C\<close> with the dangling page \<open>C\<close>.
\<close>

theorem sweep_division_safe_witness:
  "dict_get [(''A'', [''B'']), (''B'', [''C'']), (''C'', [])] ''C'' = Inr [] \<and>
   sweep [(''A'', [''B'']), (''B'', [''C'']), (''C'', [])] (85 / 100)
     [(''A'', 1 / 3), (''B'', 1 / 3), (''C'', 1 / 3)] \<noteq> Inl ZeroDivisionError \<and>
   inbound_loop [(''A'', [''B'']), (''B'', [''C'']), (''C'', [])]
     (AList.update ''C'' 7 [(''A'', 1 / 3), (''B'', 1 / 3), (''C'', 1 / 3)]) ''A''
     (keys [(''A'', [''B'']), (''B'', [''C'']), (''C'', [])]) 0 =
   inbound_loop [(''A'', [''B'']), (''B'', [''C'']), (''C'', [])]
     [(''A'', 1 / 3), (''B'', 1 / 3), (''C'', 1 / 3)] ''A''
     (keys [(''A'', [''B'']), (''B'', [''C'']), (''C'', [])]) 0"
proof -
  have h: "dict_get [(''A'', [''B'']), (''B'', [''C'']), (''C'', [])] ''C'' = Inr []"
    by (simp add: dict_get_def)
  from sweep_division_safe
    [of "[(''A'', [''B'']), (''B'', [''C'']), (''C'', [])]" "85 / 100"
        "[(''A'', 1 / 3), (''B'', 1 / 3), (''C'', 1 / 3)]" "''C''" 7 "''A''"] h
  show ?thesis by blast
qed

text \<open>
  C7. For every non-empty graph and every damping factor in \<open>(0,1)\<close>, whenever
  \<open>iterate_pagerank\<close> returns, the loop has ended with ranks that are all at least
  \<open>(1 - damping) / |pages|\<close>, their total is positive, no error is raised, the result
  holds each rank divided by the total, and the values of the result sum to exactly
  \<open>1\<close>.
\<close>

theorem iterate_pagerank_sums_to_one:
  assumes "distinct (keys corpus)" and "corpus \<noteq> []"
    and "0 < damping_factor" and "damping_factor < 1"
    and "iterate_pagerank corpus damping_factor = Some r"
  shows "\<exists>first ranks res.
           first_distribution corpus (keys corpus) [] = Inr first \<and>
           iterate_loop corpus damping_factor first = Some (Inr ranks) \<and>
           (\<forall>q \<in> set (keys corpus).
              (1 - damping_factor) / of_nat (length (keys corpus)) \<le> rank_of ranks q) \<and>
           0 < sum_list (map snd ranks) \<and>
           r = Inr res \<and>
           keys res = keys corpus \<and>
           (\<forall>q \<in> set (keys corpus). rank_of res q = rank_of ranks q / sum_list (map snd ranks)) \<and>
           sum_list (map snd res) = 1"
proof -
  let ?first = "map (\<lambda>k. (k, 1 / rat_of_nat (length (keys corpus)))) (keys corpus)"
  have first: "first_distribution corpus (keys corpus) [] = Inr ?first"
    by (rule first_distribution_uniform [OF assms(1)])
  have ne: "keys corpus \<noteq> []" using assms(2) by (simp add: keys_def)
  then have ok: "ranks_ok corpus ?first" by (auto simp: ranks_ok_def keys_tabulated)
  obtain l where l: "iterate_loop corpus damping_factor ?first = Some l"
    using assms(5) first by (cases "iterate_loop corpus damping_factor ?first")
      (auto simp: iterate_pagerank_def)
  from iterate_loop_positive [OF l] assms(2-4) ok
  obtain ranks where
    ranks: "l = Inr ranks" "ranks_ok corpus ranks"
      "\<forall>q \<in> set (keys corpus).
         (1 - damping_factor) / of_nat (length (keys corpus)) \<le> rank_of ranks q"
    by auto
  have k: "keys ranks = keys corpus" and pos: "\<forall>v \<in> snd ` set ranks. 0 < v"
    using ranks(2) by (auto simp: ranks_ok_def)
  have "ranks \<noteq> []" using k ne by (auto simp: keys_def)
  then have tpos: "0 < sum_list (map snd ranks)"
    using pos by (intro sum_list_positive) auto
  from normalization_result [of ranks] assms(1) k tpos
  obtain res where
    res: "normalization ranks = Inr res" "keys res = keys ranks"
      "\<forall>q \<in> set (keys ranks). rank_of res q = rank_of ranks q / sum_list (map snd ranks)"
      "sum_list (map snd res) = 1"
    by auto
  have "r = Inr res" using assms(5) first l ranks(1) res(1) by (simp add: iterate_pagerank_def)
  with first l ranks(1,3) tpos res k show ?thesis by auto
qed

text \<open>
  The run on the chain \<open>A \<rightarrow> B \<rightarrow> C\<close> with damping \<open>0.85\<close>: the second sweep changes
  nothing and ends the loop.
\<close>

lemma dangling_chain_run:
  "iterate_pagerank [(''A'', [''B'']), (''B'', [''C'']), (''C'', [])] (85 / 100) =
     Some (Inr [(''A'', 400 / 2169), (''B'', 740 / 2169), (''C'', 343 / 723)])"
  by code_simp

text \<open>
  The theorem at that run.
\<close>

theorem iterate_pagerank_sums_to_one_witness:
  "distinct (keys [(''A'', [''B'']), (''B'', [''C'']), (''C'', [])]) \<and>
   [(''A'', [''B'']), (''B'', [''C'']), (''C'', [])] \<noteq> [] \<and>
   (0::rat) < 85 / 100 \<and> (85 / 100 :: rat) < 1 \<and>
   iterate_pagerank [(''A'', [''B'']), (''B'', [''C'']), (''C'', [])] (85 / 100) =
     Some (Inr [(''A'', 400 / 2169), (''B'', 740 / 2169), (''C'', 343 / 723)]) \<and>
   sum_list (map snd [(''A'', 400 / 2169 :: rat), (''B'', 740 / 2169), (''C'', 343 / 723)]) = 1"
proof -
  let ?G = "[(''A'', [''B'']), (''B'', [''C'']), (''C'', [])]"
  have h: "distinct (keys ?G)" "?G \<noteq> []" "(0::rat) < 85 / 100" "(85 / 100 :: rat) < 1"
    by (simp_all add: keys_def)
  from iterate_pagerank_sums_to_one [OF h dangling_chain_run]
  have "sum_list (map snd [(''A'', 400 / 2169 :: rat), (''B'', 740 / 2169), (''C'', 343 / 723)]) = 1"
    by blast
  with h dangling_chain_run show ?thesis by blast
qed

lemma two_pages_first:
  "first_distribution [(''A'', [''B'']), (''B'', [''A''])]
     (keys [(''A'', [''B'']), (''B'', [''A''])]) [] = Inr [(''A'', 1 / 2), (''B'', 1 / 2)]"
  by (simp add: keys_def pydiv_def)

lemma two_pages_sweep:
  "sweep [(''A'', [''B'']), (''B'', [''A''])] d [(''A'', 1 / 2), (''B'', 1 / 2)] =
     Inr ([(''A'', 1 / 2), (''B'', 1 / 2)], 2)"
proof -
  have h: "(1 - d) / 2 + d / 2 = 1 / 2" by (simp add: field_simps)
  have a: "inbound_loop [(''A'', [''B'']), (''B'', [''A''])] [(''A'', 1 / 2), (''B'', 1 / 2)] ''A''
             [''A'', ''B''] 0 = Inr (1 / 2)"
    by (simp add: dict_get_def pydiv_def)
  have b: "inbound_loop [(''A'', [''B'']), (''B'', [''A''])] [(''A'', 1 / 2), (''B'', 1 / 2)] ''B''
             [''A'', ''B''] 0 = Inr (1 / 2)"
    by (simp add: dict_get_def pydiv_def)
  show ?thesis
    unfolding sweep_def
    by (simp add: keys_def a b h dict_get_def pydiv_def Let_def del: inbound_loop.simps)
qed

lemma two_pages_normalization:
  "normalization [(''A'', 1 / 2), (''B'', 1 / 2)] = Inr [(''A'', 1 / 2), (''B'', 1 / 2)]"
  by (simp add: normalization_def keys_def dict_get_def pydiv_def)

text \<open>
  C9. On the graph of the two pages \<open>A\<close> and \<open>B\<close>, each linking only to the other, and
  for every damping factor in \<open>[0,1)\<close>, \<open>iterate_pagerank\<close> returns after the first sweep,
  with exactly \<open>1/2\<close> for both pages.
\<close>

theorem iterate_pagerank_two_pages:
  assumes "0 \<le> damping_factor" and "damping_factor < 1"
  shows "iterate_pagerank [(''A'', [''B'']), (''B'', [''A''])] damping_factor =
           Some (Inr [(''A'', 1 / 2), (''B'', 1 / 2)])"
proof -
  have "iterate_loop [(''A'', [''B'']), (''B'', [''A''])] damping_factor
          [(''A'', 1 / 2), (''B'', 1 / 2)] = Some (Inr [(''A'', 1 / 2), (''B'', 1 / 2)])"
    by (subst iterate_loop.simps) (simp add: two_pages_sweep keys_def)
  then show ?thesis
    by (simp add: iterate_pagerank_def two_pages_first two_pages_normalization)
qed

text \<open>
  The theorem at damping \<open>0.85\<close>.
\<close>

theorem iterate_pagerank_two_pages_witness:
  "(0::rat) \<le> 85 / 100 \<and> (85 / 100 :: rat) < 1 \<and>
   iterate_pagerank [(''A'', [''B'']), (''B'', [''A''])] (85 / 100) =
     Some (Inr [(''A'', 1 / 2), (''B'', 1 / 2)])"
  using iterate_pagerank_two_pages [of "85 / 100"] by simp

text \<open>
  C2 as stated makes both estimators fail on the empty graph. \<open>iterate_pagerank\<close> does
  not: no loop body runs, the first sweep counts \<open>0 = len(corpus.keys())\<close> pages, and the
  empty map is returned.
\<close>

theorem empty_graph_counterexample:
  "iterate_pagerank [] (85 / 100) = Some (Inr [])"
proof -
  have "iterate_loop [] (85 / 100) [] = Some (Inr [])"
    by (subst iterate_loop.simps) (simp add: sweep_def keys_def)
  then show ?thesis by (simp add: iterate_pagerank_def keys_def normalization_def)
qed

text \<open>
  C2 (as amended). On the empty graph, \<open>sample_pagerank\<close> fails at its first statement,
  the choice of a start page from an empty list, for every damping factor and every
  \<open>n\<close>; \<open>iterate_pagerank\<close> raises no error and returns the empty map.
\<close>

theorem empty_graph:
  "sample_pagerank [] damping_factor n r u = Inl IndexError \<and>
   iterate_pagerank [] damping_factor = Some (Inr [])"
proof -
  have "iterate_loop [] damping_factor [] = Some (Inr [])"
    by (subst iterate_loop.simps) (simp add: sweep_def keys_def)
  then show ?thesis
    by (simp add: iterate_pagerank_def keys_def normalization_def sample_pagerank_def
        random_choice_def)
qed

end
